theory Spec2Isabelle
  imports Main "HOL-Library.Word" "HOL-Library.Monad_Syntax"
begin

section \<open>The data model of \<open>event.hpp\<close>\<close>

text \<open>
  \<open>std::size_t\<close> is taken at 64 bits: subscriber ids and the id counter are 64-bit words, so
  that \<open>fetch_add\<close> wraps around as the hardware does.

  An \<open>Event\<close> object lives on the heap and is reached through \<open>shared_ptr\<close> and
  \<open>weak_ptr\<close>; an \<open>addr\<close> is the identity of one such object. A \<open>Callback\<close> is a
  \<open>std::function\<close>: a reference to code that the program supplies. The slot stores the
  reference (\<open>cbref\<close>); what the code behind it does is given by the program's \<open>code\<close>
  table, which maps a reference and the arguments to an effect on the whole program state. That effect
  may reach the very \<open>Event\<close> that is publishing (a lambda that captured the
  \<open>shared_ptr\<close>), and it ends either normally or by throwing; a callback that never
  comes back is outside the model.
\<close>

type_synonym size_t = "64 word"
type_synonym addr = nat
type_synonym cbref = nat

type_synonym Slot = "size_t \<times> cbref"
type_synonym SlotVec = "Slot list"

record Event =
  slots :: SlotVec
  next_id :: size_t

record Subscription =
  owner :: "addr option"
  sub_id :: size_t

text \<open>
  The program state: the live \<open>Event\<close> objects, the topic map of the \<open>EventBus\<close>
  (\<open>channels_\<close>, each value a \<open>shared_ptr\<close>), the identity that the next allocated object
  will get, and whatever state the user's own code keeps.
\<close>

record 'x world =
  events :: "addr \<rightharpoonup> Event"
  channels :: "string \<rightharpoonup> addr"
  fresh :: addr
  user :: 'x

datatype 's outcome = Returned 's | Threw 's

fun state_of :: "'s outcome \<Rightarrow> 's" where
  "state_of (Returned s) = s"
| "state_of (Threw s) = s"

type_synonym ('a, 'x) code = "cbref \<Rightarrow> 'a \<Rightarrow> 'x world \<Rightarrow> 'x world outcome"

text \<open>
  A run of \<open>publish\<close> carries the program state together with the record of the callback
  invocations made so far: which slot was called, with which arguments.
\<close>

type_synonym ('a, 'x) run = "'x world \<times> (Slot \<times> 'a) list"


section \<open>class \<open>Event\<close>\<close>

text \<open>
  Every member function takes \<open>this\<close> and the program state. A call on an address that holds
  no live \<open>Event\<close> has no defined behaviour in C++; the model returns \<open>None\<close> there.
  The objects are owned by \<open>shared_ptr\<close>, as the class (an \<open>enable_shared_from_this\<close>)
  expects, so that \<open>weak_from_this\<close> is a pointer to \<open>this\<close>. Memory allocation is taken
  to succeed.
\<close>

definition Event_new :: Event where
  "Event_new = \<lparr>slots = [], next_id = 1\<rparr>"

definition subscribe :: "addr \<Rightarrow> cbref \<Rightarrow> 'x world \<Rightarrow> (Subscription \<times> 'x world) option" where
  "subscribe this cb \<sigma> =
     (case events \<sigma> this of
        None \<Rightarrow> None
      | Some ev \<Rightarrow>
          (let id' = next_id ev;
               ev1 = ev\<lparr>next_id := next_id ev + 1\<rparr>;
               curr = slots ev1;
               next = curr @ [(id', cb)];
               ev2 = ev1\<lparr>slots := next\<rparr>
           in Some (\<lparr>owner = Some this, sub_id = id'\<rparr>,
                    \<sigma>\<lparr>events := (events \<sigma>)(this \<mapsto> ev2)\<rparr>)))"

text \<open>
  The loop of \<open>unsubscribe\<close>: it walks the whole current vector, drops every slot whose id
  matches and copies the others to \<open>next\<close> in order.
\<close>

fun remove_loop :: "SlotVec \<Rightarrow> size_t \<Rightarrow> SlotVec \<times> bool \<Rightarrow> SlotVec \<times> bool" where
  "remove_loop [] id' acc = acc"
| "remove_loop ((sid, fn) # rest) id' (next, removed) =
     (if sid = id' then remove_loop rest id' (next, True)
      else remove_loop rest id' (next @ [(sid, fn)], removed))"

definition unsubscribe :: "addr \<Rightarrow> size_t \<Rightarrow> 'x world \<Rightarrow> (bool \<times> 'x world) option" where
  "unsubscribe this id' \<sigma> =
     (case events \<sigma> this of
        None \<Rightarrow> None
      | Some ev \<Rightarrow>
          (let curr = slots ev;
               (next, removed) = remove_loop curr id' ([], False)
           in if removed
              then Some (removed, \<sigma>\<lparr>events := (events \<sigma>)(this \<mapsto> ev\<lparr>slots := next\<rparr>)\<rparr>)
              else Some (removed, \<sigma>)))"

definition invoke :: "('a, 'x) code \<Rightarrow> Slot \<Rightarrow> 'a \<Rightarrow> ('a, 'x) run \<Rightarrow> ('a, 'x) run outcome" where
  "invoke code slot args st =
     (case code (snd slot) args (fst st) of
        Returned \<sigma>' \<Rightarrow> Returned (\<sigma>', snd st @ [(slot, args)])
      | Threw \<sigma>' \<Rightarrow> Threw (\<sigma>', snd st @ [(slot, args)]))"

definition try_catch_all :: "('s \<Rightarrow> 's outcome) \<Rightarrow> ('s \<Rightarrow> 's outcome) \<Rightarrow> 's \<Rightarrow> 's outcome" where
  "try_catch_all body handler s =
     (case body s of Returned s' \<Rightarrow> Returned s' | Threw s' \<Rightarrow> handler s')"

text \<open>A range-based \<open>for\<close>: an exception that leaves the body leaves the loop.\<close>

fun for_each :: "'b list \<Rightarrow> ('b \<Rightarrow> 's \<Rightarrow> 's outcome) \<Rightarrow> 's \<Rightarrow> 's outcome" where
  "for_each [] body s = Returned s"
| "for_each (x # xs) body s =
     (case body x s of Returned s' \<Rightarrow> for_each xs body s' | Threw s' \<Rightarrow> Threw s')"

text \<open>The body of the loop of \<open>publish\<close>: the call, in a \<open>try\<close> with an empty \<open>catch (...)\<close>.\<close>

definition deliver :: "('a, 'x) code \<Rightarrow> 'a \<Rightarrow> Slot \<Rightarrow> ('a, 'x) run \<Rightarrow> ('a, 'x) run outcome" where
  "deliver code args slot = try_catch_all (invoke code slot args) Returned"

definition publish ::
  "('a, 'x) code \<Rightarrow> addr \<Rightarrow> 'a \<Rightarrow> ('a, 'x) run \<Rightarrow> ('a, 'x) run outcome option" where
  "publish code this args st =
     (case events (fst st) this of
        None \<Rightarrow> None
      | Some ev \<Rightarrow>
          (let snapshot = slots ev
           in Some (for_each snapshot (deliver code args) st)))"

definition subscriber_count :: "addr \<Rightarrow> 'x world \<Rightarrow> (nat \<times> 'x world) option" where
  "subscriber_count this \<sigma> =
     (case events \<sigma> this of
        None \<Rightarrow> None
      | Some ev \<Rightarrow> (let snapshot = slots ev in Some (length snapshot, \<sigma>)))"

definition clear :: "addr \<Rightarrow> 'x world \<Rightarrow> (unit \<times> 'x world) option" where
  "clear this \<sigma> =
     (case events \<sigma> this of
        None \<Rightarrow> None
      | Some ev \<Rightarrow>
          (let empty = [] in Some ((), \<sigma>\<lparr>events := (events \<sigma>)(this \<mapsto> ev\<lparr>slots := empty\<rparr>)\<rparr>)))"


section \<open>class \<open>Event::Subscription\<close>\<close>

text \<open>
  \<open>weak_ptr::lock\<close> gives the owner back while the object is alive, and nothing once it has
  been destroyed or when the pointer is empty.
\<close>

definition lock :: "addr option \<Rightarrow> 'x world \<Rightarrow> addr option" where
  "lock w \<sigma> =
     (case w of
        None \<Rightarrow> None
      | Some a \<Rightarrow> (case events \<sigma> a of None \<Rightarrow> None | Some _ \<Rightarrow> Some a))"

text \<open>
  \<open>Subscription::unsubscribe\<close> returns its result, the handle as it leaves it, the program
  state, and the list of the calls it made to \<open>Event::unsubscribe\<close> (object and id).
\<close>

definition Subscription_unsubscribe ::
  "Subscription \<Rightarrow> 'x world \<Rightarrow> ((bool \<times> Subscription \<times> 'x world) \<times> (addr \<times> size_t) list) option" where
  "Subscription_unsubscribe s \<sigma> =
     (case lock (owner s) \<sigma> of
        None \<Rightarrow> Some ((False, s, \<sigma>), [])
      | Some ev \<Rightarrow>
          if sub_id s = 0 then Some ((False, s, \<sigma>), [])
          else do {
            (removed, \<sigma>') \<leftarrow> unsubscribe ev (sub_id s) \<sigma>;
            Some ((removed, s\<lparr>sub_id := 0, owner := None\<rparr>, \<sigma>'), [(ev, sub_id s)])
          })"

definition Subscription_bool :: "Subscription \<Rightarrow> bool" where
  "Subscription_bool s = (sub_id s \<noteq> 0)"


section \<open>class \<open>EventBus\<close>\<close>

text \<open>
  \<open>channels_[topic]\<close> default-constructs a null entry for a new topic, which
  \<open>make_shared\<close> then fills with a new \<open>Event\<close>; the new object gets an identity no other
  object has had.
\<close>

definition EventBus_subscribe ::
  "string \<Rightarrow> cbref \<Rightarrow> 'x world \<Rightarrow> (Subscription \<times> 'x world) option" where
  "EventBus_subscribe topic cb \<sigma> =
     (case channels \<sigma> topic of
        None \<Rightarrow>
          (let ch = fresh \<sigma>;
               \<sigma>1 = \<sigma>\<lparr>events := (events \<sigma>)(ch \<mapsto> Event_new),
                       channels := (channels \<sigma>)(topic \<mapsto> ch),
                       fresh := Suc ch\<rparr>
           in subscribe ch cb \<sigma>1)
      | Some ch \<Rightarrow> subscribe ch cb \<sigma>)"

definition EventBus_publish ::
  "('a, 'x) code \<Rightarrow> string \<Rightarrow> 'a \<Rightarrow> ('a, 'x) run \<Rightarrow> ('a, 'x) run outcome option" where
  "EventBus_publish code topic args st =
     (case channels (fst st) topic of
        None \<Rightarrow> Some (Returned st)
      | Some ch \<Rightarrow> publish code ch args st)"


section \<open>Sequences of operations\<close>

text \<open>
  A sequence of mutating calls on one \<open>Event\<close>, run from left to right; the result lists the
  ids that the \<open>subscribe\<close> calls handed out, in order. The caller keeps the handles it gets:
  the destructor of a handle, which calls \<open>Subscription::unsubscribe\<close>, does not run here.
\<close>

datatype mutation = Subscribe cbref | Unsubscribe size_t | Clear

fun run :: "addr \<Rightarrow> mutation list \<Rightarrow> 'x world \<Rightarrow> (size_t list \<times> 'x world) option" where
  "run this [] \<sigma> = Some ([], \<sigma>)"
| "run this (Subscribe cb # ops) \<sigma> = do {
     (s, \<sigma>1) \<leftarrow> subscribe this cb \<sigma>;
     (ids, \<sigma>2) \<leftarrow> run this ops \<sigma>1;
     Some (sub_id s # ids, \<sigma>2)
   }"
| "run this (Unsubscribe i # ops) \<sigma> = do {
     (removed, \<sigma>1) \<leftarrow> unsubscribe this i \<sigma>;
     run this ops \<sigma>1
   }"
| "run this (Clear # ops) \<sigma> = do {
     (u, \<sigma>1) \<leftarrow> clear this \<sigma>;
     run this ops \<sigma>1
   }"

fun subscribes :: "mutation list \<Rightarrow> nat" where
  "subscribes [] = 0"
| "subscribes (Subscribe cb # ops) = Suc (subscribes ops)"
| "subscribes (m # ops) = subscribes ops"

text \<open>
  \<open>churn c n\<close> is \<open>n\<close> rounds of a subscribe followed by the unsubscribe of the id it got,
  on a channel whose counter stands at \<open>c\<close>.
\<close>

fun churn :: "size_t \<Rightarrow> nat \<Rightarrow> mutation list" where
  "churn c 0 = []"
| "churn c (Suc n) = Subscribe 0 # Unsubscribe c # churn (c + 1) n"

text \<open>A sequence of \<open>EventBus::subscribe\<close> calls, each a topic and a callback.\<close>

fun bus_subscribes :: "(string \<times> cbref) list \<Rightarrow> 'x world \<Rightarrow> 'x world option" where
  "bus_subscribes [] \<sigma> = Some \<sigma>"
| "bus_subscribes ((topic, cb) # rest) \<sigma> = do {
     (s, \<sigma>1) \<leftarrow> EventBus_subscribe topic cb \<sigma>;
     bus_subscribes rest \<sigma>1
   }"

text \<open>
  The scenario on an \<open>Event<int>\<close>: subscribe \<open>A\<close>, subscribe \<open>B\<close>, \<open>publish(1)\<close>, release
  \<open>A\<close>'s handle, \<open>publish(2)\<close>. It yields the invocations made by the first and by the second
  \<open>publish\<close>.
\<close>

definition scenario ::
  "(int, 'x) code \<Rightarrow> addr \<Rightarrow> cbref \<Rightarrow> cbref \<Rightarrow> 'x world
     \<Rightarrow> ((Slot \<times> int) list \<times> (Slot \<times> int) list) option" where
  "scenario code this A B \<sigma>0 = do {
     (sA, \<sigma>1) \<leftarrow> subscribe this A \<sigma>0;
     (sB, \<sigma>2) \<leftarrow> subscribe this B \<sigma>1;
     r1 \<leftarrow> publish code this 1 (\<sigma>2, []);
     ((removed, sA', \<sigma>3), calls) \<leftarrow> Subscription_unsubscribe sA (fst (state_of r1));
     r2 \<leftarrow> publish code this 2 (\<sigma>3, []);
     Some (snd (state_of r1), snd (state_of r2))
   }"


section \<open>A concrete program\<close>

text \<open>
  The callbacks of \<open>main.cpp\<close> print a letter and the value: callback 0 is \<open>A\<close>, callback 1
  is \<open>B\<close>, and the user state is the output so far. Two more callbacks exercise the other
  paths: callback 2 prints and then throws, and every other callback subscribes \<open>B\<close> once more
  to the \<open>Event\<close> at address 0 and keeps the handle it gets, as a lambda holding the
  \<open>shared_ptr\<close> can.
\<close>

definition demo_code :: "(int, (string \<times> int) list) code" where
  "demo_code cb v \<sigma> =
     (if cb = 0 then Returned (\<sigma>\<lparr>user := user \<sigma> @ [(''A'', v)]\<rparr>)
      else if cb = 1 then Returned (\<sigma>\<lparr>user := user \<sigma> @ [(''B'', v)]\<rparr>)
      else if cb = 2 then Threw (\<sigma>\<lparr>user := user \<sigma> @ [(''C'', v)]\<rparr>)
      else (case subscribe 0 1 \<sigma> of None \<Rightarrow> Returned \<sigma> | Some (s, \<sigma>') \<Rightarrow> Returned \<sigma>'))"

text \<open>A program state with one \<open>Event\<close>, at address 0, an empty bus and no output yet.\<close>

definition demo_world :: "SlotVec \<Rightarrow> size_t \<Rightarrow> (string \<times> int) list world" where
  "demo_world sl n =
     \<lparr>events = [0 \<mapsto> \<lparr>slots = sl, next_id = n\<rparr>], channels = Map.empty, fresh = 1, user = []\<rparr>"

text \<open>The program state when \<open>main\<close> begins: no object, an empty bus.\<close>

definition start_world :: "(string \<times> int) list world" where
  "start_world = \<lparr>events = Map.empty, channels = Map.empty, fresh = 0, user = []\<rparr>"


section \<open>The removal loop and the mutating calls\<close>

lemma remove_loop_filter:
  "remove_loop xs i (acc, r) = (acc @ filter (\<lambda>s. fst s \<noteq> i) xs, r \<or> i \<in> fst ` set xs)"
  by (induction xs arbitrary: acc r) auto

lemma filter_single_key:
  assumes "distinct (map fst xs)" and "i \<in> fst ` set xs"
  shows "\<exists>pre e post. xs = pre @ e # post \<and> fst e = i \<and> filter (\<lambda>s. fst s \<noteq> i) xs = pre @ post"
proof -
  from assms(2) obtain e where e: "e \<in> set xs" "fst e = i" by auto
  then obtain pre post where xs: "xs = pre @ e # post" by (auto dest: split_list)
  with assms(1) e(2) have "i \<notin> fst ` set pre" "i \<notin> fst ` set post" by auto
  then have "filter (\<lambda>s. fst s \<noteq> i) pre = pre" "filter (\<lambda>s. fst s \<noteq> i) post = post"
    by (auto simp: filter_id_conv)
  with xs e(2) show ?thesis by (intro exI [of _ pre] exI [of _ e] exI [of _ post]) simp
qed

lemma subscribe_result:
  assumes "events \<sigma> this = Some ev"
  shows "subscribe this cb \<sigma> =
           Some (\<lparr>owner = Some this, sub_id = next_id ev\<rparr>,
                 \<sigma>\<lparr>events := (events \<sigma>)(this \<mapsto>
                      \<lparr>slots = slots ev @ [(next_id ev, cb)], next_id = next_id ev + 1\<rparr>)\<rparr>)"
  using assms by (cases ev) (simp add: subscribe_def Let_def)

lemma unsubscribe_result:
  assumes "events \<sigma> this = Some ev"
  shows "unsubscribe this i \<sigma> =
           Some (i \<in> fst ` set (slots ev),
                 if i \<in> fst ` set (slots ev)
                 then \<sigma>\<lparr>events := (events \<sigma>)(this \<mapsto>
                        ev\<lparr>slots := filter (\<lambda>s. fst s \<noteq> i) (slots ev)\<rparr>)\<rparr>
                 else \<sigma>)"
  using assms by (simp add: unsubscribe_def remove_loop_filter Let_def)

text \<open>
  C3: on every live channel \<open>unsubscribe(id)\<close> returns true exactly when the current snapshot
  has an entry with that id. When it returns true the new snapshot is the old one without the
  entries of that id, the others in their order (with ids that are distinct in the snapshot, it
  is the old one with that one entry taken out); when it returns false the program state is
  unchanged.
\<close>

theorem unsubscribe_spec:
  assumes "events \<sigma> this = Some ev"
  shows "unsubscribe this i \<sigma> =
           Some (i \<in> fst ` set (slots ev),
                 if i \<in> fst ` set (slots ev)
                 then \<sigma>\<lparr>events := (events \<sigma>)(this \<mapsto>
                        ev\<lparr>slots := filter (\<lambda>s. fst s \<noteq> i) (slots ev)\<rparr>)\<rparr>
                 else \<sigma>)
         \<and> (distinct (map fst (slots ev)) \<and> i \<in> fst ` set (slots ev) \<longrightarrow>
              (\<exists>pre e post. slots ev = pre @ e # post \<and> fst e = i
                 \<and> filter (\<lambda>s. fst s \<noteq> i) (slots ev) = pre @ post))"
  using unsubscribe_result [OF assms, of i] filter_single_key [of "slots ev" i] by simp

theorem unsubscribe_spec_witness:
  "unsubscribe 0 2 (demo_world [(1, 0), (2, 1), (3, 0)] 4) = Some (True, demo_world [(1, 0), (3, 0)] 4)
   \<and> unsubscribe 0 2 (demo_world [(1, 0), (3, 0)] 4) = Some (False, demo_world [(1, 0), (3, 0)] 4)"
proof -
  have h1: "events (demo_world [(1, 0), (2, 1), (3, 0)] 4) 0 =
              Some \<lparr>slots = [(1, 0), (2, 1), (3, 0)], next_id = 4\<rparr>"
    by (simp add: demo_world_def)
  have h2: "events (demo_world [(1, 0), (3, 0)] 4) 0 = Some \<lparr>slots = [(1, 0), (3, 0)], next_id = 4\<rparr>"
    by (simp add: demo_world_def)
  from unsubscribe_spec [OF h1, of 2] unsubscribe_spec [OF h2, of 2]
  show ?thesis by (simp add: demo_world_def)
qed


section \<open>Delivery\<close>

lemma deliver_returns:
  "deliver code args slot st =
     Returned (state_of (code (snd slot) args (fst st)), snd st @ [(slot, args)])"
  by (cases "code (snd slot) args (fst st)")
     (simp_all add: deliver_def try_catch_all_def invoke_def)

lemma for_each_append:
  "for_each (xs @ ys) body s =
     (case for_each xs body s of Returned s' \<Rightarrow> for_each ys body s' | Threw s' \<Rightarrow> Threw s')"
  by (induction xs arbitrary: s) (auto split: outcome.splits)

lemma for_each_deliver:
  "for_each xs (deliver code args) (\<sigma>, tr) =
     Returned (foldl (\<lambda>\<sigma> slot. state_of (code (snd slot) args \<sigma>)) \<sigma> xs,
               tr @ map (\<lambda>slot. (slot, args)) xs)"
  by (induction xs arbitrary: \<sigma> tr) (simp_all add: deliver_returns)

lemma foldl_keeps:
  assumes "\<forall>x\<in>set xs. \<forall>s. P s \<longrightarrow> P (f s x)" and "P s"
  shows "P (foldl f s xs)"
  using assms by (induction xs arbitrary: s) simp_all

lemma publish_result:
  assumes "events \<sigma> this = Some ev"
  shows "publish code this args (\<sigma>, tr) =
           Some (Returned (foldl (\<lambda>\<sigma> slot. state_of (code (snd slot) args \<sigma>)) \<sigma> (slots ev),
                           tr @ map (\<lambda>slot. (slot, args)) (slots ev)))"
  using assms by (simp add: publish_def Let_def for_each_deliver)

lemma publish_keeps:
  assumes "events \<sigma> this = Some ev"
    and "\<forall>slot\<in>set (slots ev). \<forall>\<sigma>1. events \<sigma>1 this = Some ev \<longrightarrow>
           events (state_of (code (snd slot) args \<sigma>1)) this = Some ev"
  shows "\<exists>\<sigma>'. publish code this args (\<sigma>, tr) =
                 Some (Returned (\<sigma>', tr @ map (\<lambda>slot. (slot, args)) (slots ev)))
               \<and> events \<sigma>' this = Some ev"
proof -
  let ?f = "\<lambda>\<sigma> slot. state_of (code (snd slot) args \<sigma>)"
  have "events (foldl ?f \<sigma> (slots ev)) this = Some ev"
    by (rule foldl_keeps [where P = "\<lambda>\<sigma>. events \<sigma> this = Some ev"]) (use assms in auto)
  with publish_result [OF assms(1), of code args tr] show ?thesis by simp
qed

lemma scenario_holds:
  assumes new: "events \<sigma>0 this = Some Event_new"
    and quiet: "\<forall>cb\<in>{A, B}. \<forall>v \<sigma> ev. events \<sigma> this = Some ev \<longrightarrow>
                  events (state_of (code cb v \<sigma>)) this = Some ev"
  shows "scenario code this A B \<sigma>0 = Some ([((1, A), 1), ((2, B), 1)], [((2, B), 2)])"
proof -
  let ?eA = "\<lparr>slots = [(1, A)], next_id = 2\<rparr>"
  let ?eAB = "\<lparr>slots = [(1, A), (2, B)], next_id = 3\<rparr>"
  let ?eB = "\<lparr>slots = [(2, B)], next_id = 3\<rparr>"
  let ?sA = "\<lparr>owner = Some this, sub_id = 1\<rparr>"
  obtain \<sigma>1 where s1: "subscribe this A \<sigma>0 = Some (?sA, \<sigma>1)" and e1: "events \<sigma>1 this = Some ?eA"
    using new by (simp add: subscribe_def Event_new_def)
  obtain sB \<sigma>2 where s2: "subscribe this B \<sigma>1 = Some (sB, \<sigma>2)" and e2: "events \<sigma>2 this = Some ?eAB"
    using e1 by (simp add: subscribe_def)
  from quiet have q2: "\<forall>slot\<in>set (slots ?eAB). \<forall>\<sigma>1. events \<sigma>1 this = Some ?eAB \<longrightarrow>
           events (state_of (code (snd slot) 1 \<sigma>1)) this = Some ?eAB" by simp
  from publish_keeps [where \<sigma> = \<sigma>2 and this = this and ev = ?eAB and code = code
      and args = 1 and tr = "[]"] e2 q2
  obtain \<sigma>3 where p1: "publish code this 1 (\<sigma>2, []) = Some (Returned (\<sigma>3, [((1, A), 1), ((2, B), 1)]))"
    and e3: "events \<sigma>3 this = Some ?eAB" by auto
  obtain \<sigma>4 sA' calls where u: "Subscription_unsubscribe ?sA \<sigma>3 = Some ((True, sA', \<sigma>4), calls)"
    and e4: "events \<sigma>4 this = Some ?eB"
    using e3 by (simp add: Subscription_unsubscribe_def lock_def unsubscribe_def)
  from quiet have q4: "\<forall>slot\<in>set (slots ?eB). \<forall>\<sigma>1. events \<sigma>1 this = Some ?eB \<longrightarrow>
           events (state_of (code (snd slot) 2 \<sigma>1)) this = Some ?eB" by simp
  from publish_keeps [where \<sigma> = \<sigma>4 and this = this and ev = ?eB and code = code
      and args = 2 and tr = "[]"] e4 q4
  obtain \<sigma>5 where p2: "publish code this 2 (\<sigma>4, []) = Some (Returned (\<sigma>5, [((2, B), 2)]))" by auto
  show ?thesis by (simp add: scenario_def s1 s2 p1 u p2)
qed

text \<open>
  C1: on every live channel and for every argument tuple, \<open>publish\<close> calls the callback of each
  entry of the snapshot it loaded, once, in the snapshot's order and with the given arguments:
  the invocations it adds to the record are the snapshot's entries in order, each with
  \<open>args\<close>, and the program state it leaves is the callbacks' effects applied one after the
  other, whatever the callbacks do to the channel meanwhile. In particular, on a new channel
  and with callbacks \<open>A\<close> and \<open>B\<close> that leave the channel alone: after subscribing \<open>A\<close> then
  \<open>B\<close>, \<open>publish(1)\<close> calls \<open>A\<close> with 1 and then \<open>B\<close> with 1, and once \<open>A\<close>'s handle is
  released \<open>publish(2)\<close> calls \<open>B\<close> with 2 and nothing else.
\<close>

theorem publish_delivers:
  "(events \<sigma> this = Some ev \<longrightarrow>
      publish code this args (\<sigma>, tr) =
        Some (Returned (foldl (\<lambda>\<sigma> slot. state_of (code (snd slot) args \<sigma>)) \<sigma> (slots ev),
                        tr @ map (\<lambda>slot. (slot, args)) (slots ev))))
   \<and> (events \<sigma>0 that = Some Event_new
        \<and> (\<forall>cb\<in>{A, B}. \<forall>v \<sigma> ev. events \<sigma> that = Some ev \<longrightarrow>
               events (state_of (prog cb v \<sigma>)) that = Some ev) \<longrightarrow>
        scenario prog that A B \<sigma>0 = Some ([((1, A), 1), ((2, B), 1)], [((2, B), 2)]))"
  using publish_result [of \<sigma> this ev code args tr] scenario_holds [of \<sigma>0 that A B prog]
  by blast

theorem publish_delivers_witness:
  "publish demo_code 0 7 (demo_world [(1, 0), (2, 1)] 3, []) =
     Some (Returned ((demo_world [(1, 0), (2, 1)] 3)\<lparr>user := [(''A'', 7), (''B'', 7)]\<rparr>,
                     [((1, 0), 7), ((2, 1), 7)]))
   \<and> scenario demo_code 0 0 1 (demo_world [] 1) = Some ([((1, 0), 1), ((2, 1), 1)], [((2, 1), 2)])"
proof -
  let ?W = "demo_world [(1, 0), (2, 1)] 3"
  have h: "events ?W 0 = Some \<lparr>slots = [(1, 0), (2, 1)], next_id = 3\<rparr>"
    by (simp add: demo_world_def)
  have n: "events (demo_world [] 1) 0 = Some Event_new"
    by (simp add: demo_world_def Event_new_def)
  have q: "\<forall>cb\<in>{0, 1}. \<forall>v \<sigma> ev. events \<sigma> 0 = Some ev \<longrightarrow>
             events (state_of (demo_code cb v \<sigma>)) 0 = Some ev"
    by (simp add: demo_code_def)
  note t = publish_delivers [where \<sigma> = ?W and this = 0 and code = demo_code and args = 7
      and tr = "[]" and ev = "\<lparr>slots = [(1, 0), (2, 1)], next_id = 3\<rparr>"
      and \<sigma>0 = "demo_world [] 1" and that = 0 and A = 0 and B = 1 and prog = demo_code]
  from t h have "publish demo_code 0 7 (?W, []) =
     Some (Returned (?W\<lparr>user := [(''A'', 7), (''B'', 7)]\<rparr>, [((1, 0), 7), ((2, 1), 7)]))"
    by (simp add: demo_code_def demo_world_def)
  moreover from t n q
  have "scenario demo_code 0 0 1 (demo_world [] 1) = Some ([((1, 0), 1), ((2, 1), 1)], [((2, 1), 2)])"
    by blast
  ultimately show ?thesis by simp
qed

text \<open>
  C4: on every live channel \<open>publish\<close> returns normally, whatever the callbacks do. When the
  callback at some position of the snapshot throws, delivery goes on from the state the
  throwing callback left, with the entries after it, all of which are called.
\<close>

theorem publish_isolates:
  assumes "events \<sigma> this = Some ev"
  shows "(\<exists>st'. publish code this args (\<sigma>, tr) = Some (Returned st'))
       \<and> (\<forall>pre s post \<sigma>1 tr1 \<sigma>2.
             slots ev = pre @ s # post
             \<and> for_each pre (deliver code args) (\<sigma>, tr) = Returned (\<sigma>1, tr1)
             \<and> code (snd s) args \<sigma>1 = Threw \<sigma>2 \<longrightarrow>
               publish code this args (\<sigma>, tr) =
                 Some (for_each post (deliver code args) (\<sigma>2, tr1 @ [(s, args)]))
             \<and> (\<exists>\<sigma>'. publish code this args (\<sigma>, tr) =
                   Some (Returned (\<sigma>', tr1 @ (s, args) # map (\<lambda>slot. (slot, args)) post))))"
proof (intro conjI allI impI)
  show "\<exists>st'. publish code this args (\<sigma>, tr) = Some (Returned st')"
    using publish_result [OF assms, of code args tr] by simp
next
  fix pre s post \<sigma>1 tr1 \<sigma>2
  assume h: "slots ev = pre @ s # post
             \<and> for_each pre (deliver code args) (\<sigma>, tr) = Returned (\<sigma>1, tr1)
             \<and> code (snd s) args \<sigma>1 = Threw \<sigma>2"
  then have "for_each (pre @ s # post) (deliver code args) (\<sigma>, tr) =
               for_each post (deliver code args) (\<sigma>2, tr1 @ [(s, args)])"
    by (simp add: for_each_append deliver_returns)
  with assms h show eq: "publish code this args (\<sigma>, tr) =
                 Some (for_each post (deliver code args) (\<sigma>2, tr1 @ [(s, args)]))"
    by (simp add: publish_def)
  then show "\<exists>\<sigma>'. publish code this args (\<sigma>, tr) =
                   Some (Returned (\<sigma>', tr1 @ (s, args) # map (\<lambda>slot. (slot, args)) post))"
    by (simp add: for_each_deliver)
qed

theorem publish_isolates_witness:
  "publish demo_code 0 7 (demo_world [(1, 0), (2, 2), (3, 1)] 4, []) =
     Some (Returned ((demo_world [(1, 0), (2, 2), (3, 1)] 4)
                       \<lparr>user := [(''A'', 7), (''C'', 7), (''B'', 7)]\<rparr>,
                     [((1, 0), 7), ((2, 2), 7), ((3, 1), 7)]))"
proof -
  let ?W = "demo_world [(1, 0), (2, 2), (3, 1)] 4"
  let ?W1 = "?W\<lparr>user := [(''A'', 7)]\<rparr>"
  let ?W2 = "?W\<lparr>user := [(''A'', 7), (''C'', 7)]\<rparr>"
  have h: "events ?W 0 = Some \<lparr>slots = [(1, 0), (2, 2), (3, 1)], next_id = 4\<rparr>"
    by (simp add: demo_world_def)
  have a: "slots \<lparr>slots = [(1, 0), (2, 2), (3, 1)], next_id = 4\<rparr> = [(1, 0)] @ (2, 2) # [(3, 1)]"
    by simp
  have b: "for_each [(1, 0)] (deliver demo_code 7) (?W, []) = Returned (?W1, [((1, 0), 7)])"
    by (simp add: deliver_def try_catch_all_def invoke_def demo_code_def demo_world_def)
  have c: "demo_code (snd (2, 2)) 7 ?W1 = Threw ?W2"
    by (simp add: demo_code_def)
  from publish_isolates [OF h, of demo_code 7 "[]"] a b c
  have "publish demo_code 0 7 (?W, []) =
          Some (for_each [(3, 1)] (deliver demo_code 7) (?W2, [((1, 0), 7)] @ [((2, 2), 7)]))"
    by blast
  then show ?thesis
    by (simp add: deliver_def try_catch_all_def invoke_def demo_code_def)
qed

text \<open>
  C10, as the code has it: \<open>subscriber_count\<close> leaves the whole program state unchanged, and
  \<open>publish\<close> itself writes neither the snapshot nor the counter. When the callbacks of the
  snapshot leave the channel alone, the channel is the same after \<open>publish\<close> as before, whether
  they return or throw. A callback that calls back into the channel changes it while
  \<open>publish\<close> runs, which holds no lock to prevent that.
\<close>

theorem publish_frame:
  assumes "events \<sigma> this = Some ev"
    and "\<forall>slot\<in>set (slots ev). \<forall>\<sigma>1. events \<sigma>1 this = Some ev \<longrightarrow>
           events (state_of (code (snd slot) args \<sigma>1)) this = Some ev"
  shows "(\<exists>\<sigma>' tr'. publish code this args (\<sigma>, tr) = Some (Returned (\<sigma>', tr'))
            \<and> events \<sigma>' this = Some ev)
       \<and> subscriber_count this \<sigma> = Some (length (slots ev), \<sigma>)"
  using publish_keeps [where \<sigma> = \<sigma> and this = this and ev = ev and code = code
      and args = args and tr = tr] assms
  by (auto simp: subscriber_count_def)

theorem publish_frame_witness:
  "publish demo_code 0 7 (demo_world [(1, 0), (2, 2)] 3, []) =
     Some (Returned ((demo_world [(1, 0), (2, 2)] 3)\<lparr>user := [(''A'', 7), (''C'', 7)]\<rparr>,
                     [((1, 0), 7), ((2, 2), 7)]))
   \<and> events ((demo_world [(1, 0), (2, 2)] 3)\<lparr>user := [(''A'', 7), (''C'', 7)]\<rparr>) 0 =
       events (demo_world [(1, 0), (2, 2)] 3) 0
   \<and> subscriber_count 0 (demo_world [(1, 0), (2, 2)] 3) = Some (2, demo_world [(1, 0), (2, 2)] 3)"
proof -
  let ?W = "demo_world [(1, 0), (2, 2)] 3"
  let ?E = "\<lparr>slots = [(1, 0), (2, 2)], next_id = 3\<rparr>"
  have h: "events ?W 0 = Some ?E" by (simp add: demo_world_def)
  have q: "\<forall>slot\<in>set (slots ?E). \<forall>\<sigma>1. events \<sigma>1 0 = Some ?E \<longrightarrow>
             events (state_of (demo_code (snd slot) 7 \<sigma>1)) 0 = Some ?E"
    by (simp add: demo_code_def)
  from publish_frame [where \<sigma> = ?W and this = 0 and ev = ?E and code = demo_code and args = 7
      and tr = "[]", OF h q]
  have "subscriber_count 0 ?W = Some (2, ?W)" by simp
  then show ?thesis
    by (simp add: publish_def deliver_def try_catch_all_def invoke_def demo_code_def demo_world_def)
qed

theorem publish_frame_counterexample:
  "publish demo_code 0 7 (demo_world [(1, 3)] 2, []) =
     Some (Returned (demo_world [(1, 3), (2, 1)] 3, [((1, 3), 7)]))
   \<and> events (demo_world [(1, 3), (2, 1)] 3) 0 \<noteq> events (demo_world [(1, 3)] 2) 0"
  by (simp add: publish_def demo_world_def deliver_def try_catch_all_def invoke_def
      demo_code_def subscribe_def)

section \<open>Subscriber ids\<close>

lemma upt_shift: "map f [0..<Suc n] = f 0 # map (\<lambda>k. f (Suc k)) [0..<n]"
proof -
  have "[0..<Suc n] = 0 # map Suc [0..<n]"
    by (simp only: map_Suc_upt) (simp add: upt_conv_Cons del: upt_Suc)
  then show ?thesis by (simp only: list.map map_map comp_def)
qed

text \<open>The ids handed out by a sequence are the successive values of the counter.\<close>

lemma run_ids:
  "events \<sigma> this = Some ev \<Longrightarrow>
   \<exists>\<sigma>' ev'. run this ops \<sigma> = Some (map (\<lambda>k. next_id ev + of_nat k) [0..<subscribes ops], \<sigma>')
     \<and> events \<sigma>' this = Some ev' \<and> next_id ev' = next_id ev + of_nat (subscribes ops)"
proof (induction ops arbitrary: \<sigma> ev)
  case Nil
  then show ?case by simp
next
  case (Cons m ops)
  show ?case
  proof (cases m)
    case (Subscribe cb)
    let ?ev1 = "\<lparr>slots = slots ev @ [(next_id ev, cb)], next_id = next_id ev + 1\<rparr>"
    let ?\<sigma>1 = "\<sigma>\<lparr>events := (events \<sigma>)(this \<mapsto> ?ev1)\<rparr>"
    have s: "subscribe this cb \<sigma> = Some (\<lparr>owner = Some this, sub_id = next_id ev\<rparr>, ?\<sigma>1)"
      using Cons.prems by (rule subscribe_result)
    have "events ?\<sigma>1 this = Some ?ev1" by simp
    from Cons.IH [OF this] obtain \<sigma>' ev' where
      r: "run this ops ?\<sigma>1 = Some (map (\<lambda>k. next_id ev + 1 + of_nat k) [0..<subscribes ops], \<sigma>')"
      and e: "events \<sigma>' this = Some ev'" "next_id ev' = next_id ev + 1 + of_nat (subscribes ops)"
      by auto
    have "map (\<lambda>k. next_id ev + of_nat k) [0..<Suc (subscribes ops)] =
            next_id ev # map (\<lambda>k. next_id ev + 1 + of_nat k) [0..<subscribes ops]"
      by (simp only: upt_shift) (simp add: add.assoc add.commute)
    with s r e Subscribe show ?thesis by (simp del: upt_Suc add: add.assoc add.commute)
  next
    case (Unsubscribe i)
    from unsubscribe_result [OF Cons.prems, of i] obtain r \<sigma>1 ev1 where
      u: "unsubscribe this i \<sigma> = Some (r, \<sigma>1)"
      and e1: "events \<sigma>1 this = Some ev1" "next_id ev1 = next_id ev"
      using Cons.prems by (cases "i \<in> fst ` set (slots ev)") auto
    from Cons.IH [OF e1(1)] e1(2) u Unsubscribe show ?thesis by simp
  next
    case Clear
    from Cons.prems obtain \<sigma>1 ev1 where
      u: "clear this \<sigma> = Some ((), \<sigma>1)"
      and e1: "events \<sigma>1 this = Some ev1" "next_id ev1 = next_id ev"
      by (auto simp: clear_def)
    from Cons.IH [OF e1(1)] e1(2) u Clear show ?thesis by simp
  qed
qed

lemma counter_values_distinct:
  fixes c :: size_t
  assumes "n \<le> 2 ^ 64"
  shows "distinct (map (\<lambda>k. c + of_nat k) [0..<n])"
proof -
  have "inj_on (\<lambda>k. c + (of_nat k :: size_t)) {0..<n}"
  proof (rule inj_onI)
    fix x y
    assume x: "x \<in> {0..<n}" and y: "y \<in> {0..<n}"
      and eq: "c + (of_nat x :: size_t) = c + of_nat y"
    from eq have "(of_nat x :: size_t) = of_nat y" by simp
    then have "take_bit 64 x = take_bit 64 y" by (simp add: word_of_nat_eq_iff)
    moreover from x assms have "x < 2 ^ 64" by simp
    moreover from y assms have "y < 2 ^ 64" by simp
    ultimately show "x = y" by (simp add: take_bit_nat_eq_self)
  qed
  then show ?thesis by (simp add: distinct_map)
qed

lemma counter_values_repeat:
  fixes c :: size_t
  assumes "2 ^ 64 < n"
  shows "\<not> distinct (map (\<lambda>k. c + of_nat k) [0..<n])"
proof
  assume "distinct (map (\<lambda>k. c + of_nat k) [0..<n])"
  then have inj: "inj_on (\<lambda>k. c + (of_nat k :: size_t)) {0..<n}" by (simp add: distinct_map)
  have "(of_nat (2 ^ 64) :: size_t) = 0" using of_nat_2p [where 'a = 64] by simp
  then have "c + (of_nat 0 :: size_t) = c + of_nat (2 ^ 64)" by simp
  with inj assms have "(0::nat) = 2 ^ 64" by (auto dest!: inj_onD [where x = 0 and y = "2 ^ 64"])
  then show False by simp
qed

lemma subscribes_append: "subscribes (xs @ ys) = subscribes xs + subscribes ys"
  by (induction xs rule: subscribes.induct) auto

lemma subscribes_churn: "subscribes (concat (replicate n [Subscribe cb, Clear])) = n"
  by (induction n) auto

text \<open>
  C5, as the code has it: the counter is a 64-bit word. For every sequence of subscribe,
  unsubscribe and clear calls on a live channel that holds at most \<open>2^64\<close> subscribe calls,
  every subscribe call succeeds and the ids handed out are pairwise distinct, whatever was
  removed in between. The counter wraps around after \<open>2^64\<close> allocations, and a longer sequence
  gets an id a second time.
\<close>

theorem ids_unique:
  assumes "events \<sigma> this = Some ev" and "subscribes ops \<le> 2 ^ 64"
  shows "\<exists>ids \<sigma>'. run this ops \<sigma> = Some (ids, \<sigma>') \<and> distinct ids \<and> length ids = subscribes ops"
  using run_ids [OF assms(1), of ops] counter_values_distinct [OF assms(2), of "next_id ev"]
  by auto

theorem ids_unique_witness:
  "run 0 [Subscribe 0, Subscribe 1, Unsubscribe 1, Subscribe 0, Clear, Subscribe 1] (demo_world [] 1)
     = Some ([1, 2, 3, 4], demo_world [(4, 1)] 5)
   \<and> distinct [1, 2, 3, 4 :: size_t]"
proof -
  let ?ops = "[Subscribe 0, Subscribe 1, Unsubscribe 1, Subscribe 0, Clear, Subscribe 1]"
  have h: "events (demo_world [] 1) 0 = Some \<lparr>slots = [], next_id = 1\<rparr>"
    by (simp add: demo_world_def)
  have n: "subscribes ?ops \<le> 2 ^ 64" by simp
  have r: "run 0 ?ops (demo_world [] 1) = Some ([1, 2, 3, 4], demo_world [(4, 1)] 5)"
    by (simp add: subscribe_def unsubscribe_def clear_def demo_world_def)
  from ids_unique [OF h n] r have "distinct [1, 2, 3, 4 :: size_t]" by auto
  with r show ?thesis by simp
qed

theorem ids_unique_counterexample:
  "map_option (distinct \<circ> fst)
     (run 0 (concat (replicate (2 ^ 64) [Subscribe 0, Clear]) @ [Subscribe 0]) (demo_world [] 1))
   = Some False"
proof -
  let ?ops = "concat (replicate (2 ^ 64) [Subscribe 0, Clear]) @ [Subscribe 0]"
  have n: "subscribes ?ops = Suc (2 ^ 64)"
    by (simp only: subscribes_append subscribes_churn) simp
  have e: "events (demo_world [] 1) 0 = Some \<lparr>slots = [], next_id = 1\<rparr>"
    by (simp add: demo_world_def)
  from run_ids [OF e, of ?ops] obtain \<sigma>' where
    r: "run 0 ?ops (demo_world [] 1) = Some (map (\<lambda>k. 1 + of_nat k) [0..<subscribes ?ops], \<sigma>')"
    by auto
  have "\<not> distinct (map (\<lambda>k. (1::size_t) + of_nat k) [0..<subscribes ?ops])"
    by (rule counter_values_repeat) (simp only: n lessI)
  with r show ?thesis by (simp only: map_option_case option.simps comp_def fst_conv)
qed

text \<open>
  The ids borne by the entries of a snapshot are among those it started with and those handed
  out since.
\<close>

lemma run_slots:
  "events \<sigma> this = Some ev \<Longrightarrow> run this ops \<sigma> = Some (ids, \<sigma>') \<Longrightarrow>
   \<exists>ev'. events \<sigma>' this = Some ev' \<and> fst ` set (slots ev') \<subseteq> fst ` set (slots ev) \<union> set ids"
proof (induction ops arbitrary: \<sigma> ev ids)
  case Nil
  then show ?case by auto
next
  case (Cons m ops)
  show ?case
  proof (cases m)
    case (Subscribe cb)
    let ?ev1 = "\<lparr>slots = slots ev @ [(next_id ev, cb)], next_id = next_id ev + 1\<rparr>"
    let ?\<sigma>1 = "\<sigma>\<lparr>events := (events \<sigma>)(this \<mapsto> ?ev1)\<rparr>"
    have s: "subscribe this cb \<sigma> = Some (\<lparr>owner = Some this, sub_id = next_id ev\<rparr>, ?\<sigma>1)"
      using Cons.prems(1) by (rule subscribe_result)
    have e1: "events ?\<sigma>1 this = Some ?ev1" by simp
    show ?thesis
    proof (cases "run this ops ?\<sigma>1")
      case None
      with Cons.prems(2) Subscribe s show ?thesis by simp
    next
      case (Some p)
      obtain ids1 \<sigma>2 where p: "p = (ids1, \<sigma>2)" by (cases p)
      with Some Cons.prems(2) Subscribe s have i: "ids = next_id ev # ids1" "\<sigma>2 = \<sigma>'" by simp_all
      from Some p i(2) have r: "run this ops ?\<sigma>1 = Some (ids1, \<sigma>')" by simp
      from Cons.IH [OF e1 r] obtain ev' where
        "events \<sigma>' this = Some ev'" "fst ` set (slots ev') \<subseteq> fst ` set (slots ?ev1) \<union> set ids1"
        by auto
      with i show ?thesis by auto
    qed
  next
    case (Unsubscribe i)
    show ?thesis
    proof (cases "i \<in> fst ` set (slots ev)")
      case True
      let ?ev1 = "ev\<lparr>slots := filter (\<lambda>s. fst s \<noteq> i) (slots ev)\<rparr>"
      let ?\<sigma>1 = "\<sigma>\<lparr>events := (events \<sigma>)(this \<mapsto> ?ev1)\<rparr>"
      from unsubscribe_result [OF Cons.prems(1), of i] True
      have "unsubscribe this i \<sigma> = Some (True, ?\<sigma>1)" by simp
      with Cons.prems(2) Unsubscribe have r: "run this ops ?\<sigma>1 = Some (ids, \<sigma>')" by simp
      have "events ?\<sigma>1 this = Some ?ev1" by simp
      from Cons.IH [OF this r] obtain ev' where
        "events \<sigma>' this = Some ev'" "fst ` set (slots ev') \<subseteq> fst ` set (slots ?ev1) \<union> set ids"
        by auto
      then show ?thesis by auto
    next
      case False
      from unsubscribe_result [OF Cons.prems(1), of i] False
      have "unsubscribe this i \<sigma> = Some (False, \<sigma>)" by simp
      with Cons.prems(2) Unsubscribe have r: "run this ops \<sigma> = Some (ids, \<sigma>')" by simp
      from Cons.IH [OF Cons.prems(1) r] show ?thesis .
    qed
  next
    case Clear
    let ?\<sigma>1 = "\<sigma>\<lparr>events := (events \<sigma>)(this \<mapsto> ev\<lparr>slots := []\<rparr>)\<rparr>"
    from Cons.prems(1) have "clear this \<sigma> = Some ((), ?\<sigma>1)" by (simp add: clear_def)
    with Cons.prems(2) Clear have r: "run this ops ?\<sigma>1 = Some (ids, \<sigma>')" by simp
    have "events ?\<sigma>1 this = Some (ev\<lparr>slots := []\<rparr>)" by simp
    from Cons.IH [OF this r] show ?thesis by auto
  qed
qed

text \<open>Counter values handed out before and after a point are apart while the counter has not wrapped.\<close>

lemma counter_values_apart:
  fixes c :: size_t
  assumes "n + m \<le> 2 ^ 64"
  shows "set (map (\<lambda>k. c + of_nat k) [0..<n]) \<inter> set (map (\<lambda>j. c + of_nat n + of_nat j) [0..<m]) = {}"
proof -
  have "[n..<n + m] = map (\<lambda>j. n + j) [0..<m]"
    by (induction m) simp_all
  with upt_add_eq_append [of 0 n m] have "[0..<n + m] = [0..<n] @ map (\<lambda>j. n + j) [0..<m]"
    by simp
  then have "map (\<lambda>k. c + of_nat k) [0..<n + m] =
               map (\<lambda>k. c + of_nat k) [0..<n] @ map (\<lambda>j. c + of_nat n + of_nat j) [0..<m]"
    by (simp add: comp_def add.assoc)
  with counter_values_distinct [OF assms, of c] show ?thesis by (simp only: distinct_append)
qed

text \<open>A round of \<open>churn\<close> leaves the snapshot as it was and the counter one further.\<close>

lemma churn_run:
  "events \<sigma> this = Some \<lparr>slots = S, next_id = c\<rparr> \<Longrightarrow>
   \<forall>j<n. c + of_nat j \<notin> fst ` set S \<Longrightarrow>
   \<exists>ids \<sigma>'. run this (churn c n) \<sigma> = Some (ids, \<sigma>')
      \<and> events \<sigma>' this = Some \<lparr>slots = S, next_id = c + of_nat n\<rparr>"
proof (induction n arbitrary: \<sigma> c)
  case 0
  then show ?case by simp
next
  case (Suc n)
  let ?\<sigma>1 = "\<sigma>\<lparr>events := (events \<sigma>)(this \<mapsto> \<lparr>slots = S @ [(c, 0)], next_id = c + 1\<rparr>)\<rparr>"
  let ?\<sigma>2 = "?\<sigma>1\<lparr>events := (events ?\<sigma>1)(this \<mapsto> \<lparr>slots = S, next_id = c + 1\<rparr>)\<rparr>"
  from Suc.prems(2) have c: "c \<notin> fst ` set S" by force
  then have f: "filter (\<lambda>s. fst s \<noteq> c) S = S" by (auto simp: filter_id_conv)
  have s: "subscribe this 0 \<sigma> = Some (\<lparr>owner = Some this, sub_id = c\<rparr>, ?\<sigma>1)"
    using subscribe_result [OF Suc.prems(1), of 0] by simp
  have "events ?\<sigma>1 this = Some \<lparr>slots = S @ [(c, 0)], next_id = c + 1\<rparr>" by simp
  from unsubscribe_result [OF this, of c] f
  have u: "unsubscribe this c ?\<sigma>1 = Some (True, ?\<sigma>2)" by simp
  have e2: "events ?\<sigma>2 this = Some \<lparr>slots = S, next_id = c + 1\<rparr>" by simp
  have "\<forall>j<n. c + 1 + of_nat j \<notin> fst ` set S"
  proof (intro allI impI)
    fix j assume "j < n"
    with Suc.prems(2) have "c + of_nat (Suc j) \<notin> fst ` set S" by blast
    then show "c + 1 + of_nat j \<notin> fst ` set S" by (simp add: ac_simps)
  qed
  from Suc.IH [OF e2 this] obtain ids \<sigma>' where
    "run this (churn (c + 1) n) ?\<sigma>2 = Some (ids, \<sigma>')"
    "events \<sigma>' this = Some \<lparr>slots = S, next_id = c + 1 + of_nat n\<rparr>" by blast
  with s u show ?case by (simp add: ac_simps)
qed


lemma of_nat_size_t_inj:
  assumes "x < 2 ^ 64" and "y < 2 ^ 64" and "(of_nat x :: size_t) = of_nat y"
  shows "x = y"
proof -
  from assms(3) have "take_bit 64 x = take_bit 64 y" by (simp add: word_of_nat_eq_iff)
  with assms(1,2) show ?thesis by (simp add: take_bit_nat_eq_self)
qed

lemma wrapped_counter: "(2::size_t) + of_nat (2 ^ 64 - 1) = 1"
proof -
  define x :: size_t where "x = of_nat (2 ^ 64 - 1)"
  have a: "Suc (2 ^ 64 - 1) = (2 ^ 64 :: nat)" by simp
  have z: "(of_nat (2 ^ 64) :: size_t) = 0" using of_nat_2p [where 'a = 64] by simp
  have "1 + x = of_nat (Suc (2 ^ 64 - 1))" unfolding x_def by (simp only: of_nat_Suc)
  then have "1 + x = 0" by (simp only: a z)
  moreover have "2 + x = 1 + (1 + x)" by simp
  ultimately have "2 + x = 1" by simp
  then show ?thesis unfolding x_def .
qed

lemma two_plus_ne_one:
  assumes "j < 2 ^ 64 - 1"
  shows "(2::size_t) + of_nat j \<noteq> 1"
proof
  assume "(2::size_t) + of_nat j = 1"
  with wrapped_counter have "(2::size_t) + of_nat j = 2 + of_nat (2 ^ 64 - 1)" by (simp only:)
  then have e: "(of_nat j :: size_t) = of_nat (2 ^ 64 - 1)" by (simp only: add_left_cancel)
  from assms have a: "j < 2 ^ 64" by simp
  have b: "(2 ^ 64 - 1 :: nat) < 2 ^ 64" by simp
  from of_nat_size_t_inj [OF a b e] assms show False by simp
qed

lemma run_from_new:
  assumes "events origin this = Some Event_new" and "run this before origin = Some (issued, \<sigma>)"
  shows "\<exists>ev. events \<sigma> this = Some ev
           \<and> issued = map (\<lambda>k. 1 + of_nat k) [0..<subscribes before]
           \<and> next_id ev = 1 + of_nat (subscribes before)
           \<and> fst ` set (slots ev) \<subseteq> set issued"
proof -
  from run_ids [OF assms(1), of before] assms(2) obtain ev where
    "events \<sigma> this = Some ev" "issued = map (\<lambda>k. 1 + of_nat k) [0..<subscribes before]"
    "next_id ev = 1 + of_nat (subscribes before)"
    by (auto simp: Event_new_def)
  moreover from run_slots [OF assms] this(1) have "fst ` set (slots ev) \<subseteq> set issued"
    by (simp add: Event_new_def)
  ultimately show ?thesis by blast
qed

lemma counter_value_fresh:
  fixes c :: size_t
  assumes "n < 2 ^ 64"
  shows "c + of_nat n \<notin> set (map (\<lambda>k. c + of_nat k) [0..<n])"
proof -
  from assms have "Suc n \<le> 2 ^ 64" by simp
  from counter_values_distinct [OF this, of c] show ?thesis by simp
qed

text \<open>
  C2, as the code has it: on every live channel \<open>subscribe\<close> succeeds, the id it hands out is
  the value of the counter, which it advances by one; the new snapshot is the old one with the
  entry \<open>(id, callback)\<close> appended at the end, nothing else in the program state changes, and
  the returned handle holds a reference to this channel and that id. The id is fresh, that is
  neither handed out before nor borne by an entry of the snapshot, on a channel that has seen
  fewer than \<open>2^64\<close> subscribe calls since it was made; once the counter has wrapped around,
  \<open>subscribe\<close> hands out an id that an entry of the snapshot can still bear.
\<close>

theorem subscribe_spec:
  "(events \<sigma> this = Some ev \<longrightarrow>
      subscribe this cb \<sigma> =
        Some (\<lparr>owner = Some this, sub_id = next_id ev\<rparr>,
              \<sigma>\<lparr>events := (events \<sigma>)(this \<mapsto>
                   \<lparr>slots = slots ev @ [(next_id ev, cb)], next_id = next_id ev + 1\<rparr>)\<rparr>))
   \<and> (events origin this = Some Event_new \<and> run this before origin = Some (issued, \<sigma>)
        \<and> subscribes before < 2 ^ 64 \<longrightarrow>
        (\<exists>s \<sigma>' ev1. subscribe this cb \<sigma> = Some (s, \<sigma>') \<and> events \<sigma> this = Some ev1
           \<and> sub_id s \<notin> set issued \<and> sub_id s \<notin> fst ` set (slots ev1)))"
proof (intro conjI impI)
  assume "events \<sigma> this = Some ev"
  then show "subscribe this cb \<sigma> =
        Some (\<lparr>owner = Some this, sub_id = next_id ev\<rparr>,
              \<sigma>\<lparr>events := (events \<sigma>)(this \<mapsto>
                   \<lparr>slots = slots ev @ [(next_id ev, cb)], next_id = next_id ev + 1\<rparr>)\<rparr>)"
    by (rule subscribe_result)
next
  assume h: "events origin this = Some Event_new \<and> run this before origin = Some (issued, \<sigma>)
        \<and> subscribes before < 2 ^ 64"
  then obtain ev1 where e: "events \<sigma> this = Some ev1"
    and i: "issued = map (\<lambda>k. 1 + of_nat k) [0..<subscribes before]"
    and n: "next_id ev1 = 1 + of_nat (subscribes before)"
    and s: "fst ` set (slots ev1) \<subseteq> set issued"
    using run_from_new [of origin this before issued \<sigma>] by blast
  from h counter_value_fresh [of "subscribes before" 1] i n have f: "next_id ev1 \<notin> set issued"
    by simp
  with s have "next_id ev1 \<notin> fst ` set (slots ev1)" by blast
  with subscribe_result [OF e, of cb] e f
  show "\<exists>s \<sigma>' ev1. subscribe this cb \<sigma> = Some (s, \<sigma>') \<and> events \<sigma> this = Some ev1
           \<and> sub_id s \<notin> set issued \<and> sub_id s \<notin> fst ` set (slots ev1)"
    by simp
qed

theorem subscribe_spec_witness:
  "subscribe 0 1 (demo_world [(1, 0)] 2) =
     Some (\<lparr>owner = Some 0, sub_id = 2\<rparr>, demo_world [(1, 0), (2, 1)] 3)
   \<and> run 0 [Subscribe 0, Subscribe 1, Unsubscribe 2] (demo_world [] 1) =
       Some ([1, 2], demo_world [(1, 0)] 3)
   \<and> map_option (\<lambda>p. sub_id (fst p) \<in> set [1, 2]) (subscribe 0 1 (demo_world [(1, 0)] 3)) =
       Some False"
proof -
  let ?before = "[Subscribe 0, Subscribe 1, Unsubscribe 2]"
  have h: "events (demo_world [(1, 0)] 2) 0 = Some \<lparr>slots = [(1, 0)], next_id = 2\<rparr>"
    by (simp add: demo_world_def)
  have n: "events (demo_world [] 1) 0 = Some Event_new"
    by (simp add: demo_world_def Event_new_def)
  have r: "run 0 ?before (demo_world [] 1) = Some ([1, 2], demo_world [(1, 0)] 3)"
    by (simp add: subscribe_def unsubscribe_def demo_world_def)
  have b: "subscribes ?before < 2 ^ 64" by simp
  note t = subscribe_spec [where \<sigma> = "demo_world [(1, 0)] 2" and this = 0 and cb = 1
      and ev = "\<lparr>slots = [(1, 0)], next_id = 2\<rparr>"]
  from t h have 1: "subscribe 0 1 (demo_world [(1, 0)] 2) =
     Some (\<lparr>owner = Some 0, sub_id = 2\<rparr>, demo_world [(1, 0), (2, 1)] 3)"
    by (simp add: demo_world_def)
  from subscribe_spec [where origin = "demo_world [] 1" and this = 0 and before = ?before
      and issued = "[1, 2]" and \<sigma> = "demo_world [(1, 0)] 3" and cb = 1] n r b
  have "\<exists>s \<sigma>'. subscribe 0 1 (demo_world [(1, 0)] 3) = Some (s, \<sigma>') \<and> sub_id s \<notin> set [1, 2]"
    by blast
  then have "map_option (\<lambda>p. sub_id (fst p) \<in> set [1, 2]) (subscribe 0 1 (demo_world [(1, 0)] 3)) =
       Some False"
    by auto
  with 1 r show ?thesis by simp
qed

theorem subscribe_spec_counterexample:
  "do {
     (ids, \<sigma>) \<leftarrow> run 0 (Subscribe 0 # churn 2 (2 ^ 64 - 1)) (demo_world [] 1);
     ev \<leftarrow> events \<sigma> 0;
     (s, \<sigma>') \<leftarrow> subscribe 0 0 \<sigma>;
     Some (slots ev, sub_id s, sub_id s \<in> fst ` set (slots ev))
   } = Some ([(1, 0)], 1, True)"
proof -
  define ops where "ops = churn 2 (2 ^ 64 - 1)"
  have s0: "subscribe 0 0 (demo_world [] 1) = Some (\<lparr>owner = Some 0, sub_id = 1\<rparr>, demo_world [(1, 0)] 2)"
    by (simp add: subscribe_def demo_world_def)
  have e0: "events (demo_world [(1, 0)] 2) 0 = Some \<lparr>slots = [(1, 0)], next_id = 2\<rparr>"
    by (simp add: demo_world_def)
  have a: "\<forall>j<2 ^ 64 - 1. (2::size_t) + of_nat j \<notin> fst ` set [(1, 0::cbref)]"
    using two_plus_ne_one by simp
  from churn_run [OF e0 a] obtain ids \<sigma>1 where
    r: "run 0 ops (demo_world [(1, 0)] 2) = Some (ids, \<sigma>1)"
    and "events \<sigma>1 0 = Some \<lparr>slots = [(1, 0)], next_id = 2 + of_nat (2 ^ 64 - 1)\<rparr>"
    unfolding ops_def by blast
  then have e1: "events \<sigma>1 0 = Some \<lparr>slots = [(1, 0)], next_id = 1\<rparr>"
    by (simp only: wrapped_counter)
  from subscribe_result [OF e1, of 0] obtain \<sigma>2 where
    s1: "subscribe 0 0 \<sigma>1 = Some (\<lparr>owner = Some 0, sub_id = 1\<rparr>, \<sigma>2)" by simp
  have "do {
     (ids, \<sigma>) \<leftarrow> run 0 (Subscribe 0 # ops) (demo_world [] 1);
     ev \<leftarrow> events \<sigma> 0;
     (s, \<sigma>') \<leftarrow> subscribe 0 0 \<sigma>;
     Some (slots ev, sub_id s, sub_id s \<in> fst ` set (slots ev))
   } = Some ([(1, 0)], 1, True)"
    by (simp add: s0 r e1 s1)
  then show ?thesis unfolding ops_def .
qed


section \<open>Handles\<close>

lemma inert_unsubscribe:
  "Subscription_unsubscribe (s\<lparr>sub_id := 0, owner := None\<rparr>) \<sigma> =
     Some ((False, s\<lparr>sub_id := 0, owner := None\<rparr>, \<sigma>), [])"
  by (simp add: Subscription_unsubscribe_def lock_def)

text \<open>
  On a handle whose owner is gone \<open>unsubscribe\<close> takes the early return: it answers false and
  leaves the handle as it was, id included.
\<close>

lemma expired_unsubscribe:
  assumes "owner s = Some a" and "events \<sigma> a = None"
  shows "Subscription_unsubscribe s \<sigma> = Some ((False, s, \<sigma>), [])"
  using assms by (simp add: Subscription_unsubscribe_def lock_def)

text \<open>
  C6, evaluated on the code: a handle is taken from the channel at address 0, the channel is
  destroyed, and the handle is released. \<open>unsubscribe\<close> returns false and calls no removal, but it
  leaves the handle with its id 1, so that \<open>operator bool\<close> still answers true.
\<close>

theorem expired_handle_stays_active:
  "do {
     (s, \<sigma>1) \<leftarrow> subscribe 0 0 (demo_world [] 1);
     ((removed, s', \<sigma>2), calls) \<leftarrow> Subscription_unsubscribe s (\<sigma>1\<lparr>events := Map.empty\<rparr>);
     Some (s, removed, calls, s', Subscription_bool s')
   } = Some (\<lparr>owner = Some 0, sub_id = 1\<rparr>, False, [], \<lparr>owner = Some 0, sub_id = 1\<rparr>, True)"
  by (simp add: subscribe_def demo_world_def Subscription_unsubscribe_def lock_def
      Subscription_bool_def)

text \<open>
  C7: for every handle with a non-zero id whose channel is alive, the first \<open>unsubscribe\<close> calls
  the channel's \<open>unsubscribe\<close> once, with the handle's id, returns its result, and leaves the
  channel without an entry of that id and the handle with id 0 and no owner. Every later
  \<open>unsubscribe\<close> on the handle, in any program state, returns false, calls no removal and changes
  nothing.
\<close>

theorem release_once:
  assumes "owner s = Some a" and "events \<sigma> a = Some ev" and "sub_id s \<noteq> 0"
  shows "\<exists>removed \<sigma>' ev'.
           Subscription_unsubscribe s \<sigma> =
             Some ((removed, s\<lparr>sub_id := 0, owner := None\<rparr>, \<sigma>'), [(a, sub_id s)])
         \<and> removed = (sub_id s \<in> fst ` set (slots ev))
         \<and> events \<sigma>' a = Some ev' \<and> sub_id s \<notin> fst ` set (slots ev')
         \<and> (\<forall>\<sigma>''. Subscription_unsubscribe (s\<lparr>sub_id := 0, owner := None\<rparr>) \<sigma>'' =
                     Some ((False, s\<lparr>sub_id := 0, owner := None\<rparr>, \<sigma>''), []))"
  using assms unsubscribe_result [OF assms(2), of "sub_id s"]
  by (cases "sub_id s \<in> fst ` set (slots ev)")
     (auto simp: Subscription_unsubscribe_def lock_def inert_unsubscribe)

theorem release_once_witness:
  "Subscription_unsubscribe \<lparr>owner = Some 0, sub_id = 1\<rparr> (demo_world [(1, 0), (2, 1)] 3) =
     Some ((True, \<lparr>owner = None, sub_id = 0\<rparr>, demo_world [(2, 1)] 3), [(0, 1)])
   \<and> Subscription_unsubscribe \<lparr>owner = None, sub_id = 0\<rparr> (demo_world [(2, 1)] 3) =
     Some ((False, \<lparr>owner = None, sub_id = 0\<rparr>, demo_world [(2, 1)] 3), [])"
proof -
  let ?s = "\<lparr>owner = Some 0, sub_id = 1\<rparr>"
  let ?W = "demo_world [(1, 0), (2, 1)] 3"
  have a: "owner ?s = Some 0" by simp
  have b: "events ?W 0 = Some \<lparr>slots = [(1, 0), (2, 1)], next_id = 3\<rparr>"
    by (simp add: demo_world_def)
  have c: "sub_id ?s \<noteq> 0" by simp
  have d: "Subscription_unsubscribe ?s ?W =
             Some ((True, \<lparr>owner = None, sub_id = 0\<rparr>, demo_world [(2, 1)] 3), [(0, 1)])"
    by (simp add: Subscription_unsubscribe_def lock_def unsubscribe_def demo_world_def)
  from release_once [OF a b c]
  have "Subscription_unsubscribe (?s\<lparr>sub_id := 0, owner := None\<rparr>) (demo_world [(2, 1)] 3) =
          Some ((False, ?s\<lparr>sub_id := 0, owner := None\<rparr>, demo_world [(2, 1)] 3), [])"
    by blast
  with d show ?thesis by simp
qed

text \<open>
  C8, as the code has it: on every live channel \<open>clear\<close> puts an empty snapshot in place of the
  current one and changes nothing else. Right after it \<open>subscriber_count\<close> is 0,
  \<open>unsubscribe(id)\<close> returns false for every id and changes nothing, and a handle issued by
  the channel before can still be released: its \<open>unsubscribe\<close> returns false and leaves it
  inactive. Later on, after any further subscribe, unsubscribe and clear calls,
  \<open>unsubscribe(id)\<close> for an id of the cleared snapshot, directly or through its handle, still
  returns false, on a channel that sees at most \<open>2^64\<close> subscribe calls in all, before and
  after the \<open>clear\<close>; once the counter has wrapped around, the id can be handed out again and
  \<open>unsubscribe(id)\<close> then returns true.
\<close>

theorem clear_spec:
  "(events \<sigma> this = Some ev \<longrightarrow>
      (\<exists>\<sigma>'. clear this \<sigma> = Some ((), \<sigma>')
         \<and> \<sigma>' = \<sigma>\<lparr>events := (events \<sigma>)(this \<mapsto> ev\<lparr>slots := []\<rparr>)\<rparr>
         \<and> subscriber_count this \<sigma>' = Some (0, \<sigma>')
         \<and> (\<forall>i. unsubscribe this i \<sigma>' = Some (False, \<sigma>'))
         \<and> (\<forall>s. owner s = Some this \<longrightarrow>
               (\<exists>s' calls. Subscription_unsubscribe s \<sigma>' = Some ((False, s', \<sigma>'), calls)
                  \<and> \<not> Subscription_bool s'))))
   \<and> (events origin this = Some Event_new \<and> run this before origin = Some (issued, \<sigma>)
        \<and> events \<sigma> this = Some ev \<and> i \<in> fst ` set (slots ev)
        \<and> subscribes before + subscribes after \<le> 2 ^ 64 \<longrightarrow>
        (\<exists>\<sigma>' ids \<sigma>''. clear this \<sigma> = Some ((), \<sigma>') \<and> run this after \<sigma>' = Some (ids, \<sigma>'')
           \<and> unsubscribe this i \<sigma>'' = Some (False, \<sigma>'')
           \<and> (\<exists>s' calls. Subscription_unsubscribe \<lparr>owner = Some this, sub_id = i\<rparr> \<sigma>'' =
                              Some ((False, s', \<sigma>''), calls)
                 \<and> \<not> Subscription_bool s')))"
proof (intro conjI impI)
  assume a: "events \<sigma> this = Some ev"
  let ?\<sigma>' = "\<sigma>\<lparr>events := (events \<sigma>)(this \<mapsto> ev\<lparr>slots := []\<rparr>)\<rparr>"
  have e: "events ?\<sigma>' this = Some (ev\<lparr>slots := []\<rparr>)" by simp
  have c: "clear this \<sigma> = Some ((), ?\<sigma>')" using a by (simp add: clear_def)
  have n: "subscriber_count this ?\<sigma>' = Some (0, ?\<sigma>')" by (simp add: subscriber_count_def)
  have u: "unsubscribe this i ?\<sigma>' = Some (False, ?\<sigma>')" for i
    using unsubscribe_result [OF e, of i] by simp
  have h: "\<exists>s' calls. Subscription_unsubscribe s ?\<sigma>' = Some ((False, s', ?\<sigma>'), calls)
                  \<and> \<not> Subscription_bool s'" if "owner s = Some this" for s
    using that u [of "sub_id s"]
    by (simp add: Subscription_unsubscribe_def lock_def Subscription_bool_def)
  from c n u h show "\<exists>\<sigma>'. clear this \<sigma> = Some ((), \<sigma>')
         \<and> \<sigma>' = \<sigma>\<lparr>events := (events \<sigma>)(this \<mapsto> ev\<lparr>slots := []\<rparr>)\<rparr>
         \<and> subscriber_count this \<sigma>' = Some (0, \<sigma>')
         \<and> (\<forall>i. unsubscribe this i \<sigma>' = Some (False, \<sigma>'))
         \<and> (\<forall>s. owner s = Some this \<longrightarrow>
               (\<exists>s' calls. Subscription_unsubscribe s \<sigma>' = Some ((False, s', \<sigma>'), calls)
                  \<and> \<not> Subscription_bool s'))"
    by blast
next
  assume h: "events origin this = Some Event_new \<and> run this before origin = Some (issued, \<sigma>)
        \<and> events \<sigma> this = Some ev \<and> i \<in> fst ` set (slots ev)
        \<and> subscribes before + subscribes after \<le> 2 ^ 64"
  let ?n = "subscribes before" and ?m = "subscribes after"
  let ?\<sigma>' = "\<sigma>\<lparr>events := (events \<sigma>)(this \<mapsto> ev\<lparr>slots := []\<rparr>)\<rparr>"
  from h run_from_new [of origin this before issued \<sigma>]
  have i0: "issued = map (\<lambda>k. 1 + of_nat k) [0..<?n]" and nx: "next_id ev = 1 + of_nat ?n"
    and sl: "fst ` set (slots ev) \<subseteq> set issued"
    by auto
  from h sl have old: "i \<in> set issued" by blast
  have c: "clear this \<sigma> = Some ((), ?\<sigma>')" using h by (simp add: clear_def)
  have e: "events ?\<sigma>' this = Some (ev\<lparr>slots := []\<rparr>)" by simp
  from run_ids [OF e, of after] nx obtain \<sigma>'' where
    r: "run this after ?\<sigma>' = Some (map (\<lambda>j. 1 + of_nat ?n + of_nat j) [0..<?m], \<sigma>'')"
    by auto
  from run_slots [OF e r] obtain ev'' where e2: "events \<sigma>'' this = Some ev''"
    and s2: "fst ` set (slots ev'') \<subseteq> set (map (\<lambda>j. 1 + of_nat ?n + of_nat j) [0..<?m])"
    by auto
  from h counter_values_apart [of ?n ?m 1] i0 old
  have "i \<notin> set (map (\<lambda>j. 1 + of_nat ?n + of_nat j) [0..<?m])" by blast
  with s2 have "i \<notin> fst ` set (slots ev'')" by blast
  with unsubscribe_result [OF e2, of i] have u: "unsubscribe this i \<sigma>'' = Some (False, \<sigma>'')"
    by simp
  from e2 u have "\<exists>s' calls. Subscription_unsubscribe \<lparr>owner = Some this, sub_id = i\<rparr> \<sigma>'' =
                              Some ((False, s', \<sigma>''), calls)
                 \<and> \<not> Subscription_bool s'"
    by (simp add: Subscription_unsubscribe_def lock_def Subscription_bool_def)
  with c r u show "\<exists>\<sigma>' ids \<sigma>''. clear this \<sigma> = Some ((), \<sigma>') \<and> run this after \<sigma>' = Some (ids, \<sigma>'')
           \<and> unsubscribe this i \<sigma>'' = Some (False, \<sigma>'')
           \<and> (\<exists>s' calls. Subscription_unsubscribe \<lparr>owner = Some this, sub_id = i\<rparr> \<sigma>'' =
                              Some ((False, s', \<sigma>''), calls)
                 \<and> \<not> Subscription_bool s')"
    by blast
qed

theorem clear_spec_witness:
  "clear 0 (demo_world [(1, 0), (2, 1)] 3) = Some ((), demo_world [] 3)
   \<and> subscriber_count 0 (demo_world [] 3) = Some (0, demo_world [] 3)
   \<and> unsubscribe 0 1 (demo_world [] 3) = Some (False, demo_world [] 3)
   \<and> Subscription_unsubscribe \<lparr>owner = Some 0, sub_id = 2\<rparr> (demo_world [] 3) =
       Some ((False, \<lparr>owner = None, sub_id = 0\<rparr>, demo_world [] 3), [(0, 2)])
   \<and> run 0 [Subscribe 0, Subscribe 1] (demo_world [] 1) =
       Some ([1, 2], demo_world [(1, 0), (2, 1)] 3)
   \<and> run 0 [Subscribe 0, Unsubscribe 3, Subscribe 1] (demo_world [] 3) =
       Some ([3, 4], demo_world [(4, 1)] 5)
   \<and> unsubscribe 0 1 (demo_world [(4, 1)] 5) = Some (False, demo_world [(4, 1)] 5)"
proof -
  let ?W = "demo_world [(1, 0), (2, 1)] 3"
  let ?E = "\<lparr>slots = [(1, 0), (2, 1)], next_id = 3\<rparr>"
  let ?before = "[Subscribe 0, Subscribe 1]"
  let ?after = "[Subscribe 0, Unsubscribe 3, Subscribe 1]"
  have h: "events ?W 0 = Some ?E"
    by (simp add: demo_world_def)
  have w: "?W\<lparr>events := (events ?W)(0 \<mapsto> ?E\<lparr>slots := []\<rparr>)\<rparr> = demo_world [] 3"
    by (simp add: demo_world_def)
  have n: "events (demo_world [] 1) 0 = Some Event_new"
    by (simp add: demo_world_def Event_new_def)
  have rb: "run 0 ?before (demo_world [] 1) = Some ([1, 2], ?W)"
    by (simp add: subscribe_def demo_world_def)
  have ra: "run 0 ?after (demo_world [] 3) = Some ([3, 4], demo_world [(4, 1)] 5)"
    by (simp add: subscribe_def unsubscribe_def demo_world_def)
  have i: "1 \<in> fst ` set (slots ?E)" by simp
  have b: "subscribes ?before + subscribes ?after \<le> 2 ^ 64" by simp
  note t = clear_spec [where \<sigma> = ?W and this = 0 and ev = ?E and origin = "demo_world [] 1"
      and before = ?before and issued = "[1, 2]" and i = 1 and after = ?after]
  from t h
  have 1: "clear 0 ?W = Some ((), demo_world [] 3)
        \<and> subscriber_count 0 (demo_world [] 3) = Some (0, demo_world [] 3)
        \<and> unsubscribe 0 1 (demo_world [] 3) = Some (False, demo_world [] 3)"
    unfolding w by blast
  from t n rb h i b
  have "\<exists>\<sigma>' ids \<sigma>''. clear 0 ?W = Some ((), \<sigma>') \<and> run 0 ?after \<sigma>' = Some (ids, \<sigma>'')
           \<and> unsubscribe 0 1 \<sigma>'' = Some (False, \<sigma>'')"
    by blast
  with 1 ra have 2: "unsubscribe 0 1 (demo_world [(4, 1)] 5) = Some (False, demo_world [(4, 1)] 5)"
    by auto
  have 3: "Subscription_unsubscribe \<lparr>owner = Some 0, sub_id = 2\<rparr> (demo_world [] 3) =
       Some ((False, \<lparr>owner = None, sub_id = 0\<rparr>, demo_world [] 3), [(0, 2)])"
    by (simp add: Subscription_unsubscribe_def lock_def unsubscribe_def demo_world_def)
  from 1 2 3 rb ra show ?thesis by simp
qed

theorem clear_spec_counterexample:
  "do {
     (issued, \<sigma>) \<leftarrow> run 0 [Subscribe 0] (demo_world [] 1);
     ev \<leftarrow> events \<sigma> 0;
     (u, \<sigma>1) \<leftarrow> clear 0 \<sigma>;
     (ids, \<sigma>2) \<leftarrow> run 0 (churn 2 (2 ^ 64 - 1)) \<sigma>1;
     (s, \<sigma>3) \<leftarrow> subscribe 0 0 \<sigma>2;
     (removed, \<sigma>4) \<leftarrow> unsubscribe 0 1 \<sigma>3;
     Some (slots ev, removed)
   } = Some ([(1, 0)], True)"
proof -
  define ops where "ops = churn 2 (2 ^ 64 - 1)"
  have r0: "run 0 [Subscribe 0] (demo_world [] 1) = Some ([1], demo_world [(1, 0)] 2)"
    by (simp add: subscribe_def demo_world_def)
  have e0: "events (demo_world [(1, 0)] 2) 0 = Some \<lparr>slots = [(1, 0)], next_id = 2\<rparr>"
    by (simp add: demo_world_def)
  have c: "clear 0 (demo_world [(1, 0)] 2) = Some ((), demo_world [] 2)"
    by (simp add: clear_def demo_world_def)
  have e1: "events (demo_world [] 2) 0 = Some \<lparr>slots = [], next_id = 2\<rparr>"
    by (simp add: demo_world_def)
  have a: "\<forall>j<2 ^ 64 - 1. (2::size_t) + of_nat j \<notin> fst ` set ([] :: SlotVec)"
    by simp
  from churn_run [OF e1 a] obtain ids \<sigma>2 where
    r: "run 0 ops (demo_world [] 2) = Some (ids, \<sigma>2)"
    and "events \<sigma>2 0 = Some \<lparr>slots = [], next_id = 2 + of_nat (2 ^ 64 - 1)\<rparr>"
    unfolding ops_def by blast
  then have e2: "events \<sigma>2 0 = Some \<lparr>slots = [], next_id = 1\<rparr>"
    by (simp only: wrapped_counter)
  let ?\<sigma>3 = "\<sigma>2\<lparr>events := (events \<sigma>2)(0 \<mapsto> \<lparr>slots = [] @ [(1, 0)], next_id = 1 + 1\<rparr>)\<rparr>"
  from subscribe_result [OF e2, of 0]
  have s: "subscribe 0 0 \<sigma>2 = Some (\<lparr>owner = Some 0, sub_id = 1\<rparr>, ?\<sigma>3)" by simp
  have "events ?\<sigma>3 0 = Some \<lparr>slots = [] @ [(1, 0)], next_id = 1 + 1\<rparr>" by simp
  from unsubscribe_result [OF this, of 1] obtain \<sigma>4 where
    u: "unsubscribe 0 1 ?\<sigma>3 = Some (True, \<sigma>4)" by simp
  have "do {
     (issued, \<sigma>) \<leftarrow> run 0 [Subscribe 0] (demo_world [] 1);
     ev \<leftarrow> events \<sigma> 0;
     (u, \<sigma>1) \<leftarrow> clear 0 \<sigma>;
     (ids, \<sigma>2) \<leftarrow> run 0 ops \<sigma>1;
     (s, \<sigma>3) \<leftarrow> subscribe 0 0 \<sigma>2;
     (removed, \<sigma>4) \<leftarrow> unsubscribe 0 1 \<sigma>3;
     Some (slots ev, removed)
   } = Some ([(1, 0)], True)"
    by (simp only: r0 e0 c r s u bind.bind_lunit prod.case Event.simps)
  then show ?thesis unfolding ops_def .
qed


section \<open>The bus\<close>

text \<open>
  While every \<open>shared_ptr\<close> in the topic map points to a live \<open>Event\<close>, \<open>EventBus::subscribe\<close>
  succeeds, keeps it so, and adds no topic but its own.
\<close>

lemma EventBus_subscribe_ok:
  assumes "ran (channels \<sigma>) \<subseteq> dom (events \<sigma>)"
  shows "\<exists>s \<sigma>'. EventBus_subscribe t cb \<sigma> = Some (s, \<sigma>')
           \<and> ran (channels \<sigma>') \<subseteq> dom (events \<sigma>')
           \<and> dom (channels \<sigma>') = insert t (dom (channels \<sigma>))"
proof (cases "channels \<sigma> t")
  case None
  let ?\<sigma>1 = "\<sigma>\<lparr>events := (events \<sigma>)(fresh \<sigma> \<mapsto> Event_new),
                       channels := (channels \<sigma>)(t \<mapsto> fresh \<sigma>),
                       fresh := Suc (fresh \<sigma>)\<rparr>"
  have "events ?\<sigma>1 (fresh \<sigma>) = Some Event_new" by simp
  from subscribe_result [OF this, of cb] None assms show ?thesis
    by (auto simp: EventBus_subscribe_def Let_def ran_def)
next
  case (Some ch)
  with assms obtain ev where "events \<sigma> ch = Some ev" by (auto simp: ran_def)
  from subscribe_result [OF this, of cb] Some assms show ?thesis
    by (auto simp: EventBus_subscribe_def ran_def)
qed

lemma bus_subscribes_ok:
  assumes "ran (channels \<sigma>) \<subseteq> dom (events \<sigma>)"
  shows "\<exists>\<sigma>'. bus_subscribes subs \<sigma> = Some \<sigma>'
           \<and> ran (channels \<sigma>') \<subseteq> dom (events \<sigma>')
           \<and> dom (channels \<sigma>') = fst ` set subs \<union> dom (channels \<sigma>)"
  using assms
proof (induction subs arbitrary: \<sigma>)
  case Nil
  then show ?case by simp
next
  case (Cons p subs)
  obtain t cb where p: "p = (t, cb)" by (cases p)
  from EventBus_subscribe_ok [OF Cons.prems, of t cb] obtain s \<sigma>1 where
    a: "EventBus_subscribe t cb \<sigma> = Some (s, \<sigma>1)" "ran (channels \<sigma>1) \<subseteq> dom (events \<sigma>1)"
       "dom (channels \<sigma>1) = insert t (dom (channels \<sigma>))" by blast
  from Cons.IH [OF a(2)] a(1,3) p show ?case by auto
qed

text \<open>
  C9: \<open>EventBus::publish\<close> on a topic that the map does not hold returns normally, calls no
  callback and leaves the whole program state as it was, the topic map included: no channel is
  made for the topic. A topic is not in the map when it was never given to
  \<open>EventBus::subscribe\<close>: after any sequence of subscribe calls on a new bus, none of them for
  that topic, the topic is absent and publishing to it does nothing. Publishing to a channel
  whose snapshot is empty, directly or through its topic, likewise calls no callback, changes
  nothing and returns normally.
\<close>

theorem publish_nowhere:
  "(channels \<sigma> topic = None \<longrightarrow>
      EventBus_publish code topic args (\<sigma>, tr) = Some (Returned (\<sigma>, tr)))
   \<and> (channels \<sigma>0 = Map.empty \<and> topic \<notin> fst ` set subs \<longrightarrow>
        (\<exists>\<sigma>1. bus_subscribes subs \<sigma>0 = Some \<sigma>1 \<and> channels \<sigma>1 topic = None
           \<and> EventBus_publish code topic args (\<sigma>1, tr) = Some (Returned (\<sigma>1, tr))))
   \<and> (events \<sigma> this = Some ev \<and> slots ev = [] \<longrightarrow>
        publish code this args (\<sigma>, tr) = Some (Returned (\<sigma>, tr)))
   \<and> (channels \<sigma> topic = Some this \<and> events \<sigma> this = Some ev \<and> slots ev = [] \<longrightarrow>
        EventBus_publish code topic args (\<sigma>, tr) = Some (Returned (\<sigma>, tr)))"
proof (intro conjI impI)
  assume "channels \<sigma>0 = Map.empty \<and> topic \<notin> fst ` set subs"
  then have ok: "ran (channels \<sigma>0) \<subseteq> dom (events \<sigma>0)" and t: "topic \<notin> fst ` set subs"
    and d: "dom (channels \<sigma>0) = {}"
    by simp_all
  from bus_subscribes_ok [OF ok, of subs] d obtain \<sigma>1 where
    b: "bus_subscribes subs \<sigma>0 = Some \<sigma>1" and "dom (channels \<sigma>1) = fst ` set subs" by auto
  with t have "channels \<sigma>1 topic = None" by (auto simp: dom_def)
  with b show "\<exists>\<sigma>1. bus_subscribes subs \<sigma>0 = Some \<sigma>1 \<and> channels \<sigma>1 topic = None
           \<and> EventBus_publish code topic args (\<sigma>1, tr) = Some (Returned (\<sigma>1, tr))"
    by (simp add: EventBus_publish_def)
qed (simp_all add: EventBus_publish_def publish_def)

theorem publish_nowhere_witness:
  "EventBus_publish demo_code ''unknown'' 1 (demo_world [] 1, []) =
     Some (Returned (demo_world [] 1, []))
   \<and> map_option (\<lambda>W. (channels W ''unknown'',
                       EventBus_publish demo_code ''unknown'' 1 (W, []) = Some (Returned (W, []))))
        (bus_subscribes [(''cpu'', 0), (''cpu'', 1), (''gpu'', 0)] start_world) = Some (None, True)
   \<and> publish demo_code 0 1 (demo_world [] 1, []) = Some (Returned (demo_world [] 1, []))
   \<and> EventBus_publish demo_code ''cpu'' 1 ((demo_world [] 1)\<lparr>channels := [''cpu'' \<mapsto> 0]\<rparr>, []) =
       Some (Returned ((demo_world [] 1)\<lparr>channels := [''cpu'' \<mapsto> 0]\<rparr>, []))"
proof -
  let ?W = "demo_world [] 1"
  let ?V = "?W\<lparr>channels := [''cpu'' \<mapsto> 0]\<rparr>"
  let ?subs = "[(''cpu'', 0), (''cpu'', 1), (''gpu'', 0)]"
  have a: "channels ?W ''unknown'' = None" by (simp add: demo_world_def)
  have b: "channels start_world = Map.empty \<and> ''unknown'' \<notin> fst ` set ?subs"
    by (simp add: start_world_def)
  have c: "events ?W 0 = Some \<lparr>slots = [], next_id = 1\<rparr> \<and> slots \<lparr>slots = [], next_id = 1\<rparr> = []"
    by (simp add: demo_world_def)
  have d: "channels ?V ''cpu'' = Some 0 \<and> events ?V 0 = Some \<lparr>slots = [], next_id = 1\<rparr>
             \<and> slots \<lparr>slots = [], next_id = 1\<rparr> = []"
    by (simp add: demo_world_def)
  from a publish_nowhere [where \<sigma> = ?W and topic = "''unknown''" and code = demo_code
      and args = 1 and tr = "[]"]
  have 1: "EventBus_publish demo_code ''unknown'' 1 (?W, []) = Some (Returned (?W, []))"
    by blast
  from b publish_nowhere [where \<sigma>0 = start_world and topic = "''unknown''" and subs = ?subs
      and code = demo_code and args = 1 and tr = "[]"]
  have 2: "\<exists>\<sigma>1. bus_subscribes ?subs start_world = Some \<sigma>1 \<and> channels \<sigma>1 ''unknown'' = None
           \<and> EventBus_publish demo_code ''unknown'' 1 (\<sigma>1, []) = Some (Returned (\<sigma>1, []))"
    by blast
  from c publish_nowhere [where \<sigma> = ?W and this = 0 and ev = "\<lparr>slots = [], next_id = 1\<rparr>"
      and code = demo_code and args = 1 and tr = "[]"]
  have 3: "publish demo_code 0 1 (?W, []) = Some (Returned (?W, []))"
    by blast
  from d publish_nowhere [where \<sigma> = ?V and this = 0 and ev = "\<lparr>slots = [], next_id = 1\<rparr>"
      and topic = "''cpu''" and code = demo_code and args = 1 and tr = "[]"]
  have 4: "EventBus_publish demo_code ''cpu'' 1 (?V, []) = Some (Returned (?V, []))"
    by blast
  from 2 have "map_option (\<lambda>W. (channels W ''unknown'',
                       EventBus_publish demo_code ''unknown'' 1 (W, []) = Some (Returned (W, []))))
        (bus_subscribes ?subs start_world) = Some (None, True)"
    by auto
  with 1 3 4 show ?thesis by simp
qed

end
